theory Spec2Isabelle
  imports Main
begin

section \<open>The cache lifecycle of the KeepAlive component\<close>

text \<open>
  A shallow embedding of \<^verbatim>\<open>packages/core/src/components/KeepAlive/index.tsx\<close>:
  the state \<^verbatim>\<open>cacheNodes\<close> of the component, the updater that the layout effect
  passes to \<^verbatim>\<open>setCacheNodes\<close> when the active key changes, and the updaters of
  \<^verbatim>\<open>refresh\<close>, \<^verbatim>\<open>destroy\<close>, \<^verbatim>\<open>destroyAll\<close> and \<^verbatim>\<open>destroyOther\<close>.

  Numbers are modelled as \<open>int\<close>: the timestamps come from \<^verbatim>\<open>Date.now()\<close>
  (integral milliseconds), the render counter starts at 0 and is only incremented,
  and durations and \<^verbatim>\<open>max\<close> are taken to be integral (negative values included).
  \<^verbatim>\<open>Date.now()\<close> is an input of the model (the argument \<open>now\<close>). The cached element
  \<^verbatim>\<open>ele\<close> is opaque, a type variable. The hook \<^verbatim>\<open>onBeforeActive\<close> is owned by the
  caller and does not touch the store; it is left out. The type tests \<^verbatim>\<open>isNil\<close>,
  \<^verbatim>\<open>isArr\<close> and \<^verbatim>\<open>isRegExp\<close> of \<^verbatim>\<open>utils\<close> are the case distinctions of the
  datatypes below. An updater returns the new store; the splice of line 166, which
  also changes the previous array in place, is modelled by its result.
\<close>

subsection \<open>Data\<close>

text \<open>\<^verbatim>\<open>interface CacheNode\<close>.\<close>

record 'e CacheNode =
  cacheKey :: string
  ele :: 'e
  lastActiveTime :: int
  renderCount :: int

text \<open>
  \<^verbatim>\<open>match: string | RegExp\<close>. A regular expression is represented by what
  \<^verbatim>\<open>RegExp.prototype.test\<close> answers on each string (for an expression without the
  global or sticky flag, \<^verbatim>\<open>test\<close> has no state).
\<close>

datatype Match = MatchString string | MatchRegExp "string \<Rightarrow> bool"

text \<open>\<^verbatim>\<open>interface MaxAliveConfig\<close>.\<close>

record MaxAliveConfig =
  match :: Match
  expire :: int

text \<open>\<^verbatim>\<open>maxAliveTime?: number | MaxAliveConfig[]\<close>.\<close>

datatype MaxAliveTime = Num int | Arr "MaxAliveConfig list"

text \<open>
  The props the cache reads. \<^verbatim>\<open>activeCacheKey\<close> is declared a string, but the
  layout effect guards against nil, so it is optional here (\<open>None\<close> is
  \<^verbatim>\<open>null\<close>/\<^verbatim>\<open>undefined\<close>); the field \<open>max_prop\<close> is the prop \<^verbatim>\<open>max\<close>.
\<close>

record 'e KeepAliveProps =
  activeCacheKey :: "string option"
  children :: 'e
  max_prop :: "int option"
  maxAliveTime :: "MaxAliveTime option"

text \<open>The defaults of the destructuring: \<^verbatim>\<open>max = 10\<close>, \<^verbatim>\<open>maxAliveTime = 0\<close>.\<close>

definition max_of :: "'e KeepAliveProps \<Rightarrow> int" where
  "max_of props = (case max_prop props of None \<Rightarrow> 10 | Some n \<Rightarrow> n)"

definition maxAliveTime_of :: "'e KeepAliveProps \<Rightarrow> MaxAliveTime" where
  "maxAliveTime_of props = (case maxAliveTime props of None \<Rightarrow> Num 0 | Some t \<Rightarrow> t)"

text \<open>What the updater of the layout effect can raise.\<close>

datatype error = TypeError

subsection \<open>Expiration (lines 136 to 150)\<close>

text \<open>
  \<^verbatim>\<open>isRegExp(item.match) ? item.match.test(activeCacheKey) : item.match === activeCacheKey\<close>
\<close>

definition test_match :: "Match \<Rightarrow> string \<Rightarrow> bool" where
  "test_match m k = (case m of MatchRegExp r \<Rightarrow> r k | MatchString s \<Rightarrow> s = k)"

text \<open>
  The value of \<^verbatim>\<open>needUpdate\<close> when the map callback reaches the \<^verbatim>\<open>return\<close>:
  \<open>prev\<close> is the entry's \<^verbatim>\<open>lastActiveTime\<close>, \<open>now\<close> the new one. A number is truthy
  when it is not 0, an array always is.
\<close>

definition needUpdate :: "MaxAliveTime \<Rightarrow> string \<Rightarrow> int \<Rightarrow> int \<Rightarrow> bool" where
  "needUpdate mat key prev now =
     (case mat of
        Num d \<Rightarrow> if d \<noteq> 0 then prev + d * 1000 < now else False
      | Arr configs \<Rightarrow>
          (case find (\<lambda>item. test_match (match item) key) configs of
             Some config \<Rightarrow> prev + expire config * 1000 < now
           | None \<Rightarrow> False))"

subsection \<open>Activation (lines 127 to 172)\<close>

text \<open>
  \<^verbatim>\<open>Array.prototype.reduce\<close> without an initial value: a \<^verbatim>\<open>TypeError\<close> on the empty
  array, otherwise a left fold that starts from the first element.
\<close>

definition reduce :: "('a \<Rightarrow> 'a \<Rightarrow> 'a) \<Rightarrow> 'a list \<Rightarrow> error + 'a" where
  "reduce f xs = (case xs of [] \<Rightarrow> Inl TypeError | x # rest \<Rightarrow> Inr (foldl f x rest))"

text \<open>
  The callback of the reduce, on object references. The entries of the array are
  distinct objects (each comes from an object literal of its own), so a reference is
  modelled by the position of the object in the array, paired with its value.
\<close>

definition older :: "nat \<times> 'e CacheNode \<Rightarrow> nat \<times> 'e CacheNode \<Rightarrow> nat \<times> 'e CacheNode" where
  "older prev cur = (if lastActiveTime (snd prev) < lastActiveTime (snd cur) then prev else cur)"

text \<open>\<^verbatim>\<open>xs.splice(i, 1)\<close> for an index \<open>i\<close> that \<^verbatim>\<open>indexOf\<close> found.\<close>

definition splice1 :: "nat \<Rightarrow> 'a list \<Rightarrow> 'a list" where
  "splice1 i xs = take i xs @ drop (Suc i) xs"

text \<open>
  Lines 163 to 166: the reduce picks a node, \<^verbatim>\<open>indexOf(node)\<close> is the position of that
  object, and the splice removes it.
\<close>

definition evict :: "'e CacheNode list \<Rightarrow> error + 'e CacheNode list" where
  "evict prevCacheNodes =
     (case reduce older (enumerate 0 prevCacheNodes) of
        Inl e \<Rightarrow> Inl e
      | Inr node \<Rightarrow> Inr (splice1 (fst node) prevCacheNodes))"

text \<open>The callback of \<^verbatim>\<open>prevCacheNodes.map\<close> in the update branch (lines 134 to 159).\<close>

definition reactivate :: "MaxAliveTime \<Rightarrow> string \<Rightarrow> 'e \<Rightarrow> int \<Rightarrow> 'e CacheNode \<Rightarrow> 'e CacheNode" where
  "reactivate mat key content now item =
     (if cacheKey item = key
      then item\<lparr>ele := content, lastActiveTime := now,
                renderCount := (if needUpdate mat key (lastActiveTime item) now
                                then renderCount item + 1 else renderCount item)\<rparr>
      else item)"

text \<open>
  The updater passed to \<^verbatim>\<open>setCacheNodes\<close> (lines 130 to 170), for a key that is not
  nil: \<open>mx\<close> is \<^verbatim>\<open>max\<close>, \<open>mat\<close> is \<^verbatim>\<open>maxAliveTime\<close>, \<open>content\<close> is \<^verbatim>\<open>children\<close>.
\<close>

definition activate ::
  "int \<Rightarrow> MaxAliveTime \<Rightarrow> string \<Rightarrow> 'e \<Rightarrow> int \<Rightarrow> 'e CacheNode list \<Rightarrow> error + 'e CacheNode list" where
  "activate mx mat key content now prevCacheNodes =
     (case find (\<lambda>item. cacheKey item = key) prevCacheNodes of
        Some cacheNode \<Rightarrow> Inr (map (reactivate mat key content now) prevCacheNodes)
      | None \<Rightarrow>
          (let node = \<lparr>cacheKey = key, ele = content, lastActiveTime = now, renderCount = 0\<rparr>
           in if int (length prevCacheNodes) > mx
              then (case evict prevCacheNodes of
                      Inl e \<Rightarrow> Inl e
                    | Inr rest \<Rightarrow> Inr (rest @ [node]))
              else Inr (prevCacheNodes @ [node])))"

text \<open>
  The layout effect: nothing happens while \<^verbatim>\<open>activeCacheKey\<close> is nil
  (\<^verbatim>\<open>safeStartTransition\<close> runs its callback).
\<close>

definition layoutEffect ::
  "'e KeepAliveProps \<Rightarrow> int \<Rightarrow> 'e CacheNode list \<Rightarrow> error + 'e CacheNode list" where
  "layoutEffect props now cacheNodes =
     (case activeCacheKey props of
        None \<Rightarrow> Inr cacheNodes
      | Some key \<Rightarrow>
          activate (max_of props) (maxAliveTime_of props) key (children props) now cacheNodes)"

text \<open>
  A run of activations under fixed \<^verbatim>\<open>max\<close> and \<^verbatim>\<open>maxAliveTime\<close>: each step gives the
  active key, the children and the time of the effect; an error ends the run.
\<close>

fun activations ::
  "int \<Rightarrow> MaxAliveTime \<Rightarrow> (string \<times> 'e \<times> int) list \<Rightarrow> 'e CacheNode list \<Rightarrow> error + 'e CacheNode list" where
  "activations mx mat [] cacheNodes = Inr cacheNodes"
| "activations mx mat ((key, content, now) # rest) cacheNodes =
     (case activate mx mat key content now cacheNodes of
        Inl e \<Rightarrow> Inl e
      | Inr cacheNodes' \<Rightarrow> activations mx mat rest cacheNodes')"

subsection \<open>The lifecycle API (lines 174 to 227)\<close>

text \<open>
  \<^verbatim>\<open>cacheKey || activeCacheKey\<close> for an optional string: \<^verbatim>\<open>undefined\<close> and the empty
  string are falsy.
\<close>

definition or_active :: "string option \<Rightarrow> string option \<Rightarrow> string option" where
  "or_active key active =
     (case key of None \<Rightarrow> active | Some k \<Rightarrow> if k = [] then active else Some k)"

text \<open>The updater of \<^verbatim>\<open>refresh\<close>; it runs at once.\<close>

definition refresh :: "'e KeepAliveProps \<Rightarrow> string option \<Rightarrow> 'e CacheNode list \<Rightarrow> 'e CacheNode list" where
  "refresh props key cacheNodes =
     (let targetCacheKey = or_active key (activeCacheKey props)
      in map (\<lambda>item. if Some (cacheKey item) = targetCacheKey
                      then item\<lparr>renderCount := renderCount item + 1\<rparr>
                      else item) cacheNodes)"

text \<open>The argument of \<^verbatim>\<open>destroy\<close>: \<^verbatim>\<open>string | string[]\<close>.\<close>

datatype KeyArg = Str string | Strs "string list"

text \<open>
  \<^verbatim>\<open>cacheKey || activeCacheKey\<close> in \<^verbatim>\<open>destroy\<close>: an array is truthy, also the empty
  one. Then \<^verbatim>\<open>isArr(targetCacheKey) ? targetCacheKey : [targetCacheKey]\<close>.
\<close>

definition destroy_target :: "'e KeepAliveProps \<Rightarrow> KeyArg option \<Rightarrow> KeyArg option" where
  "destroy_target props key =
     (case key of
        None \<Rightarrow> map_option Str (activeCacheKey props)
      | Some (Str k) \<Rightarrow> if k = [] then map_option Str (activeCacheKey props) else Some (Str k)
      | Some (Strs ks) \<Rightarrow> Some (Strs ks))"

definition destroy_keys :: "'e KeepAliveProps \<Rightarrow> KeyArg option \<Rightarrow> string option list" where
  "destroy_keys props key =
     (case destroy_target props key of
        Some (Strs ks) \<Rightarrow> map Some ks
      | Some (Str k) \<Rightarrow> [Some k]
      | None \<Rightarrow> [None])"

text \<open>
  The deferred jobs. Each closure holds the keys computed when the API was called and
  reads the store when it runs.
\<close>

datatype Task = Destroy "string option list" | DestroyAll | DestroyOther "string option"

fun run_task :: "Task \<Rightarrow> 'e CacheNode list \<Rightarrow> 'e CacheNode list" where
  "run_task (Destroy cacheKeys) cacheNodes =
     filter (\<lambda>item. Some (cacheKey item) \<notin> set cacheKeys) cacheNodes"
| "run_task DestroyAll cacheNodes = []"
| "run_task (DestroyOther targetCacheKey) cacheNodes =
     filter (\<lambda>item. Some (cacheKey item) = targetCacheKey) cacheNodes"

text \<open>
  The state of the engine: the store and the queue of the jobs that wait for their
  macro task, the oldest first.
\<close>

record 'e Engine =
  cacheNodes :: "'e CacheNode list"
  macroTasks :: "Task list"

text \<open>
  Modelled from the spec: \<^verbatim>\<open>macroTask\<close> of \<^verbatim>\<open>utils\<close> is not among the sources. The
  spec has the job scheduled on the next macro-task boundary of a first-in first-out
  task queue: the job joins the queue at its end.
\<close>

definition macroTask :: "Task \<Rightarrow> 'e Engine \<Rightarrow> 'e Engine" where
  "macroTask t s = s\<lparr>macroTasks := macroTasks s @ [t]\<rparr>"

text \<open>
  Modelled from the spec: one turn of the task queue, which is the host's and not
  among the sources. The oldest job runs on the store as it is then (\<^verbatim>\<open>setCacheNodes\<close>
  with its updater) and leaves the queue; with no job waiting nothing happens.
\<close>

definition yield :: "'e Engine \<Rightarrow> 'e Engine" where
  "yield s =
     (case macroTasks s of
        [] \<Rightarrow> s
      | t # ts \<Rightarrow> s\<lparr>cacheNodes := run_task t (cacheNodes s), macroTasks := ts\<rparr>)"

text \<open>
  \<^verbatim>\<open>destroy\<close>, \<^verbatim>\<open>destroyAll\<close> and \<^verbatim>\<open>destroyOther\<close> compute their keys at the call and
  hand the job to \<^verbatim>\<open>macroTask\<close>.
\<close>

definition destroy :: "'e KeepAliveProps \<Rightarrow> KeyArg option \<Rightarrow> 'e Engine \<Rightarrow> 'e Engine" where
  "destroy props key s = macroTask (Destroy (destroy_keys props key)) s"

definition destroyAll :: "'e Engine \<Rightarrow> 'e Engine" where
  "destroyAll s = macroTask DestroyAll s"

definition destroyOther :: "'e KeepAliveProps \<Rightarrow> string option \<Rightarrow> 'e Engine \<Rightarrow> 'e Engine" where
  "destroyOther props key s = macroTask (DestroyOther (or_active key (activeCacheKey props))) s"

section \<open>Properties\<close>

subsection \<open>The entry that the eviction removes\<close>

lemma foldl_older_last_min:
  "\<exists>j < length (p # ps). foldl older p ps = (p # ps) ! j
     \<and> (\<forall>i < length (p # ps). lastActiveTime (snd ((p # ps) ! j)) \<le> lastActiveTime (snd ((p # ps) ! i)))
     \<and> (\<forall>i < length (p # ps). j < i \<longrightarrow> lastActiveTime (snd ((p # ps) ! j)) < lastActiveTime (snd ((p # ps) ! i)))"
proof (induction ps rule: rev_induct)
  case Nil
  then show ?case by simp
next
  case (snoc q ps)
  let ?ys = "p # ps"
  let ?zs = "p # (ps @ [q])"
  let ?t = "\<lambda>x. lastActiveTime (snd x)"
  from snoc obtain j where j: "j < length ?ys" "foldl older p ps = ?ys ! j"
    and le: "\<forall>i < length ?ys. ?t (?ys ! j) \<le> ?t (?ys ! i)"
    and lt: "\<forall>i < length ?ys. j < i \<longrightarrow> ?t (?ys ! j) < ?t (?ys ! i)"
    by blast
  have old: "?zs ! i = ?ys ! i" if "i < length ?ys" for i
    using that by (metis append_Cons nth_append)
  have new: "?zs ! length ?ys = q"
    by (metis append_Cons nth_append_length)
  have len: "length ?zs = Suc (length ?ys)" by simp
  have step: "foldl older p (ps @ [q]) = older (?ys ! j) q"
    using j by simp
  show ?case
  proof (cases "?t (?ys ! j) < ?t q")
    case True
    have res: "foldl older p (ps @ [q]) = ?zs ! j"
      using True step old[OF j(1)] by (simp only: older_def if_True)
    have "?t (?zs ! j) \<le> ?t (?zs ! i)" if "i < length ?zs" for i
    proof (cases "i < length ?ys")
      case True
      then show ?thesis using le old j(1) by metis
    next
      case False
      then have "i = length ?ys" using that len by linarith
      then show ?thesis using \<open>?t (?ys ! j) < ?t q\<close> new old[OF j(1)] by simp
    qed
    moreover have "?t (?zs ! j) < ?t (?zs ! i)" if "i < length ?zs" "j < i" for i
    proof (cases "i < length ?ys")
      case True
      then show ?thesis using lt old j(1) that(2) by metis
    next
      case False
      then have "i = length ?ys" using that len by linarith
      then show ?thesis using \<open>?t (?ys ! j) < ?t q\<close> new old[OF j(1)] by simp
    qed
    moreover have "j < length ?zs" using j(1) len by linarith
    ultimately show ?thesis using res by blast
  next
    case False
    have res: "foldl older p (ps @ [q]) = ?zs ! length ?ys"
      using False step new by (simp only: older_def if_False)
    have "?t (?zs ! length ?ys) \<le> ?t (?zs ! i)" if "i < length ?zs" for i
    proof (cases "i < length ?ys")
      case True
      then have "?t (?ys ! j) \<le> ?t (?zs ! i)" using le old by metis
      then show ?thesis using False new by simp
    next
      case F: False
      then have "i = length ?ys" using that len by linarith
      then show ?thesis by simp
    qed
    moreover have "?t (?zs ! length ?ys) < ?t (?zs ! i)" if "i < length ?zs" "length ?ys < i" for i
      using that len by linarith
    moreover have "length ?ys < length ?zs" using len by linarith
    ultimately show ?thesis using res by blast
  qed
qed

lemma reduce_older_enumerate:
  assumes "xs \<noteq> []"
  shows "\<exists>j < length xs. reduce older (enumerate 0 xs) = Inr (j, xs ! j)
     \<and> (\<forall>i < length xs. lastActiveTime (xs ! j) \<le> lastActiveTime (xs ! i))
     \<and> (\<forall>i < length xs. j < i \<longrightarrow> lastActiveTime (xs ! j) < lastActiveTime (xs ! i))"
proof -
  let ?es = "enumerate 0 xs"
  from assms have "?es \<noteq> []" by (cases xs) simp_all
  then obtain p ps where es: "?es = p # ps" by (cases ?es) auto
  have len: "length (p # ps) = length xs" using es by (metis length_enumerate)
  have nth: "(p # ps) ! i = (i, xs ! i)" if "i < length xs" for i
    using that es nth_enumerate_eq[of i xs 0] by simp
  from foldl_older_last_min[of p ps] obtain j where j: "j < length (p # ps)"
    and res: "foldl older p ps = (p # ps) ! j"
    and le: "\<forall>i < length (p # ps). lastActiveTime (snd ((p # ps) ! j)) \<le> lastActiveTime (snd ((p # ps) ! i))"
    and lt: "\<forall>i < length (p # ps). j < i \<longrightarrow> lastActiveTime (snd ((p # ps) ! j)) < lastActiveTime (snd ((p # ps) ! i))"
    by blast
  have jx: "j < length xs" using j len by simp
  have "reduce older ?es = Inr (j, xs ! j)"
    using es res nth[OF jx] by (simp add: reduce_def)
  moreover have "\<forall>i < length xs. lastActiveTime (xs ! j) \<le> lastActiveTime (xs ! i)"
    using le len nth jx by (metis snd_conv)
  moreover have "\<forall>i < length xs. j < i \<longrightarrow> lastActiveTime (xs ! j) < lastActiveTime (xs ! i)"
    using lt len nth jx by (metis snd_conv)
  ultimately show ?thesis using jx by blast
qed

lemma evict_last_min:
  assumes "xs \<noteq> []"
  shows "\<exists>j < length xs. evict xs = Inr (take j xs @ drop (Suc j) xs)
     \<and> (\<forall>i < length xs. lastActiveTime (xs ! j) \<le> lastActiveTime (xs ! i))
     \<and> (\<forall>i < length xs. j < i \<longrightarrow> lastActiveTime (xs ! j) < lastActiveTime (xs ! i))"
proof -
  from reduce_older_enumerate[OF assms] obtain j where "j < length xs"
    and "reduce older (enumerate 0 xs) = Inr (j, xs ! j)"
    and "\<forall>i < length xs. lastActiveTime (xs ! j) \<le> lastActiveTime (xs ! i)"
    and "\<forall>i < length xs. j < i \<longrightarrow> lastActiveTime (xs ! j) < lastActiveTime (xs ! i)"
    by blast
  then show ?thesis by (auto simp: evict_def splice1_def)
qed

lemma evict_Nil: "evict [] = Inl TypeError"
  by (simp add: evict_def reduce_def)

subsection \<open>Activation of an unseen key\<close>

lemma find_cacheKey_None:
  "(find (\<lambda>item. cacheKey item = key) s = None) = (key \<notin> cacheKey ` set s)"
  by (auto simp: find_None_iff)

lemma activate_unseen_room:
  assumes "key \<notin> cacheKey ` set s" and "int (length s) \<le> mx"
  shows "activate mx mat key content now s =
           Inr (s @ [\<lparr>cacheKey = key, ele = content, lastActiveTime = now, renderCount = 0\<rparr>])"
proof -
  have "find (\<lambda>item. cacheKey item = key) s = None"
    using assms(1) by (simp add: find_cacheKey_None)
  then show ?thesis using assms(2) by (simp add: activate_def)
qed

lemma activate_unseen_full:
  assumes "key \<notin> cacheKey ` set s" and "mx < int (length s)"
  shows "activate mx mat key content now s =
           (case evict s of
              Inl e \<Rightarrow> Inl e
            | Inr rest \<Rightarrow> Inr (rest @ [\<lparr>cacheKey = key, ele = content, lastActiveTime = now, renderCount = 0\<rparr>]))"
proof -
  have "find (\<lambda>item. cacheKey item = key) s = None"
    using assms(1) by (simp add: find_cacheKey_None)
  then show ?thesis using assms(2) by (simp add: activate_def)
qed

lemma activate_seen:
  assumes "key \<in> cacheKey ` set s"
  shows "activate mx mat key content now s = Inr (map (reactivate mat key content now) s)"
proof -
  have "find (\<lambda>item. cacheKey item = key) s \<noteq> None"
    using assms by (simp add: find_cacheKey_None)
  then show ?thesis by (auto simp: activate_def)
qed

lemma cacheKey_reactivate: "cacheKey (reactivate mat key content now item) = cacheKey item"
  by (simp add: reactivate_def)

lemma map_cacheKey_reactivate:
  "map cacheKey (map (reactivate mat key content now) s) = map cacheKey s"
  by (simp add: cacheKey_reactivate)

text \<open>
  Claim C2, as the code has it. When the key is new and the store is not empty and
  longer than \<^verbatim>\<open>max\<close>, exactly one entry is removed, the one at some position \<open>j\<close>,
  and the new entry is appended; every other entry stays, in order. The entry at \<open>j\<close>
  has the smallest \<^verbatim>\<open>lastActiveTime\<close>, and every entry after it has a strictly larger
  one: among entries that share the smallest time, the last in iteration order goes.
\<close>

theorem evicts_last_least_recent:
  assumes "s \<noteq> []" and "mx < int (length s)" and "key \<notin> cacheKey ` set s"
  shows "\<exists>j < length s.
           activate mx mat key content now s =
             Inr (take j s @ drop (Suc j) s
                  @ [\<lparr>cacheKey = key, ele = content, lastActiveTime = now, renderCount = 0\<rparr>])
         \<and> (\<forall>i < length s. lastActiveTime (s ! j) \<le> lastActiveTime (s ! i))
         \<and> (\<forall>i < length s. j < i \<longrightarrow> lastActiveTime (s ! j) < lastActiveTime (s ! i))"
proof -
  from evict_last_min[OF assms(1)] obtain j where j: "j < length s"
    and ev: "evict s = Inr (take j s @ drop (Suc j) s)"
    and le: "\<forall>i < length s. lastActiveTime (s ! j) \<le> lastActiveTime (s ! i)"
    and lt: "\<forall>i < length s. j < i \<longrightarrow> lastActiveTime (s ! j) < lastActiveTime (s ! i)"
    by blast
  have "activate mx mat key content now s =
          Inr (take j s @ drop (Suc j) s
               @ [\<lparr>cacheKey = key, ele = content, lastActiveTime = now, renderCount = 0\<rparr>])"
    using activate_unseen_full[OF assms(3) assms(2)] ev by simp
  then show ?thesis using j le lt by blast
qed

text \<open>The scenario of three entries under \<^verbatim>\<open>max = 2\<close>, for claim C2.\<close>

theorem evicts_last_least_recent_witness:
  "[\<lparr>cacheKey = ''a'', ele = (), lastActiveTime = 1, renderCount = 0\<rparr>,
    \<lparr>cacheKey = ''b'', ele = (), lastActiveTime = 2, renderCount = 0\<rparr>,
    \<lparr>cacheKey = ''c'', ele = (), lastActiveTime = 3, renderCount = 0\<rparr>] \<noteq> []
   \<and> 2 < int (length
       [\<lparr>cacheKey = ''a'', ele = (), lastActiveTime = 1, renderCount = 0\<rparr>,
        \<lparr>cacheKey = ''b'', ele = (), lastActiveTime = 2, renderCount = 0\<rparr>,
        \<lparr>cacheKey = ''c'', ele = (), lastActiveTime = 3, renderCount = 0\<rparr>])
   \<and> ''d'' \<notin> cacheKey ` set
       [\<lparr>cacheKey = ''a'', ele = (), lastActiveTime = 1, renderCount = 0\<rparr>,
        \<lparr>cacheKey = ''b'', ele = (), lastActiveTime = 2, renderCount = 0\<rparr>,
        \<lparr>cacheKey = ''c'', ele = (), lastActiveTime = 3, renderCount = 0\<rparr>]
   \<and> (\<exists>j < 3. activate 2 (Num 0) ''d'' () 4
       [\<lparr>cacheKey = ''a'', ele = (), lastActiveTime = 1, renderCount = 0\<rparr>,
        \<lparr>cacheKey = ''b'', ele = (), lastActiveTime = 2, renderCount = 0\<rparr>,
        \<lparr>cacheKey = ''c'', ele = (), lastActiveTime = 3, renderCount = 0\<rparr>]
      = Inr (take j
       [\<lparr>cacheKey = ''a'', ele = (), lastActiveTime = 1, renderCount = 0\<rparr>,
        \<lparr>cacheKey = ''b'', ele = (), lastActiveTime = 2, renderCount = 0\<rparr>,
        \<lparr>cacheKey = ''c'', ele = (), lastActiveTime = 3, renderCount = 0\<rparr>]
         @ drop (Suc j)
       [\<lparr>cacheKey = ''a'', ele = (), lastActiveTime = 1, renderCount = 0\<rparr>,
        \<lparr>cacheKey = ''b'', ele = (), lastActiveTime = 2, renderCount = 0\<rparr>,
        \<lparr>cacheKey = ''c'', ele = (), lastActiveTime = 3, renderCount = 0\<rparr>]
         @ [\<lparr>cacheKey = ''d'', ele = (), lastActiveTime = 4, renderCount = 0\<rparr>]))"
proof -
  let ?s = "[\<lparr>cacheKey = ''a'', ele = (), lastActiveTime = 1, renderCount = 0\<rparr>,
             \<lparr>cacheKey = ''b'', ele = (), lastActiveTime = 2, renderCount = 0\<rparr>,
             \<lparr>cacheKey = ''c'', ele = (), lastActiveTime = 3, renderCount = 0\<rparr>]"
  have h1: "?s \<noteq> []" by simp
  have h2: "2 < int (length ?s)" by simp
  have h3: "''d'' \<notin> cacheKey ` set ?s" by simp
  from evicts_last_least_recent[OF h1 h2 h3, of "Num 0" "()" 4]
  obtain j where "j < length ?s" and
    "activate 2 (Num 0) ''d'' () 4 ?s =
       Inr (take j ?s @ drop (Suc j) ?s
            @ [\<lparr>cacheKey = ''d'', ele = (), lastActiveTime = 4, renderCount = 0\<rparr>])"
    by blast
  moreover have "length ?s = 3" by simp
  ultimately have "\<exists>j < 3. activate 2 (Num 0) ''d'' () 4 ?s =
       Inr (take j ?s @ drop (Suc j) ?s
            @ [\<lparr>cacheKey = ''d'', ele = (), lastActiveTime = 4, renderCount = 0\<rparr>])"
    by metis
  then show ?thesis using h1 h2 h3 by blast
qed

text \<open>
  Claim C2 as stated has the first entry of a tie evicted. With \<^verbatim>\<open>max = 1\<close> and two
  entries \<open>a\<close>, \<open>b\<close> of the same time, activating \<open>c\<close> keeps \<open>a\<close> and removes \<open>b\<close>: the
  callback keeps \<^verbatim>\<open>prev\<close> only when it is strictly older.
\<close>

theorem evicts_first_on_tie_counterexample:
  "activate 1 (Num 0) ''c'' () 9
     [\<lparr>cacheKey = ''a'', ele = (), lastActiveTime = 5, renderCount = 0\<rparr>,
      \<lparr>cacheKey = ''b'', ele = (), lastActiveTime = 5, renderCount = 0\<rparr>]
   = Inr [\<lparr>cacheKey = ''a'', ele = (), lastActiveTime = 5, renderCount = 0\<rparr>,
          \<lparr>cacheKey = ''c'', ele = (), lastActiveTime = 9, renderCount = 0\<rparr>]
   \<and> activate 1 (Num 0) ''c'' () 9
     [\<lparr>cacheKey = ''a'', ele = (), lastActiveTime = 5, renderCount = 0\<rparr>,
      \<lparr>cacheKey = ''b'', ele = (), lastActiveTime = 5, renderCount = 0\<rparr>]
   \<noteq> Inr [\<lparr>cacheKey = ''b'', ele = (), lastActiveTime = 5, renderCount = 0\<rparr>,
          \<lparr>cacheKey = ''c'', ele = (), lastActiveTime = 9, renderCount = 0\<rparr>]"
  by (simp add: activate_def evict_def reduce_def older_def splice1_def enumerate_eq_zip upt_rec)

subsection \<open>The size of the store\<close>

lemma evict_length:
  assumes "s \<noteq> []"
  shows "\<exists>rest. evict s = Inr rest \<and> Suc (length rest) = length s \<and> set rest \<subseteq> set s"
proof -
  from evict_last_min[OF assms] obtain j where j: "j < length s"
    and ev: "evict s = Inr (take j s @ drop (Suc j) s)" by blast
  have "Suc (length (take j s @ drop (Suc j) s)) = length s" using j by simp
  moreover have "set (take j s @ drop (Suc j) s) \<subseteq> set s"
    using set_take_subset[of j s] set_drop_subset[of "Suc j" s] by simp
  ultimately show ?thesis using ev by blast
qed

lemma activate_unseen_step:
  assumes "0 \<le> mx" and "key \<notin> cacheKey ` set s"
  shows "\<exists>s'. activate mx mat key content now s = Inr s'
           \<and> length s' = (if mx < int (length s) then length s else Suc (length s))
           \<and> cacheKey ` set s' \<subseteq> insert key (cacheKey ` set s)"
proof (cases "mx < int (length s)")
  case True
  then have "s \<noteq> []" using assms(1) by auto
  from evict_length[OF this] obtain rest where r: "evict s = Inr rest"
    "Suc (length rest) = length s" "set rest \<subseteq> set s" by blast
  have "activate mx mat key content now s
          = Inr (rest @ [\<lparr>cacheKey = key, ele = content, lastActiveTime = now, renderCount = 0\<rparr>])"
    using activate_unseen_full[OF assms(2) True] r(1) by simp
  moreover have "cacheKey ` set (rest @ [\<lparr>cacheKey = key, ele = content, lastActiveTime = now, renderCount = 0\<rparr>])
                   \<subseteq> insert key (cacheKey ` set s)"
    using r(3) by auto
  ultimately show ?thesis using True r(2) by simp
next
  case False
  then have "int (length s) \<le> mx" by simp
  from activate_unseen_room[OF assms(2) this] show ?thesis using False by auto
qed

lemma activations_unseen:
  assumes "0 \<le> N" and "distinct (map fst acts)" and "fst ` set acts \<inter> cacheKey ` set s = {}"
  shows "\<exists>s'. activations N mat acts s = Inr s'
           \<and> length s' = (if N < int (length s) then length s
                           else min (length s + length acts) (nat N + 1))
           \<and> cacheKey ` set s' \<subseteq> cacheKey ` set s \<union> fst ` set acts"
  using assms(2,3)
proof (induction acts arbitrary: s)
  case Nil
  then show ?case using assms(1) by auto
next
  case (Cons a acts)
  obtain key content now where a: "a = (key, content, now)" by (cases a)
  have unseen: "key \<notin> cacheKey ` set s" using Cons.prems(2) a by auto
  from activate_unseen_step[OF assms(1) unseen] obtain s1 where
    s1: "activate N mat key content now s = Inr s1"
    and len1: "length s1 = (if N < int (length s) then length s else Suc (length s))"
    and keys1: "cacheKey ` set s1 \<subseteq> insert key (cacheKey ` set s)" by blast
  have d: "distinct (map fst acts)" and knew: "key \<notin> fst ` set acts"
    using Cons.prems(1) a by auto
  have "fst ` set acts \<inter> cacheKey ` set s = {}"
    using Cons.prems(2) by auto
  then have disj: "fst ` set acts \<inter> cacheKey ` set s1 = {}"
    using keys1 knew by blast
  from Cons.IH[OF d disj] obtain s' where
    s': "activations N mat acts s1 = Inr s'"
    and len': "length s' = (if N < int (length s1) then length s1
                            else min (length s1 + length acts) (nat N + 1))"
    and keys': "cacheKey ` set s' \<subseteq> cacheKey ` set s1 \<union> fst ` set acts" by blast
  have run: "activations N mat (a # acts) s = Inr s'"
    using s1 s' a by simp
  have len: "length s' = (if N < int (length s) then length s
                          else min (length s + length (a # acts)) (nat N + 1))"
    using len' len1 assms(1) by (auto split: if_splits)
  have keys: "cacheKey ` set s' \<subseteq> cacheKey ` set s \<union> fst ` set (a # acts)"
    using keys' keys1 a by auto
  show ?case using run len keys by blast
qed

text \<open>
  Claim C1. Under a capacity \<open>N\<close> (not negative) and from the empty store, a run of
  activations with pairwise distinct keys succeeds and leaves
  \<open>min (length acts) (N + 1)\<close> entries: the store grows to \<open>N + 1\<close> entries and holds
  exactly \<open>N + 1\<close> from then on (every prefix of the run is such a run). Inserting an
  unseen key into a store of at most \<open>N\<close> entries evicts nothing, the entry is
  appended; and a store of more than \<open>N\<close> entries keeps its size under every
  activation.
\<close>

theorem size_stabilizes_above_max:
  fixes acts :: "(string \<times> 'e \<times> int) list"
  assumes "0 \<le> N" and "distinct (map fst acts)"
  shows "(\<exists>s. activations N mat acts [] = Inr s \<and> length s = min (length acts) (nat N + 1))
       \<and> (\<forall>(s :: 'e CacheNode list) key content now. key \<notin> cacheKey ` set s \<and> int (length s) \<le> N \<longrightarrow>
            activate N mat key content now s =
              Inr (s @ [\<lparr>cacheKey = key, ele = content, lastActiveTime = now, renderCount = 0\<rparr>]))
       \<and> (\<forall>(s :: 'e CacheNode list) key content now. N < int (length s) \<longrightarrow>
            (\<exists>s'. activate N mat key content now s = Inr s' \<and> length s' = length s))"
proof -
  from activations_unseen[OF assms(1) assms(2), of "[]" mat]
  have run: "\<exists>s. activations N mat acts [] = Inr s \<and> length s = min (length acts) (nat N + 1)"
    using assms(1) by auto
  have room: "activate N mat key content now s =
               Inr (s @ [\<lparr>cacheKey = key, ele = content, lastActiveTime = now, renderCount = 0\<rparr>])"
    if "key \<notin> cacheKey ` set s \<and> int (length s) \<le> N"
    for s :: "'e CacheNode list" and key content now
    using that by (simp add: activate_unseen_room)
  have full: "\<exists>s'. activate N mat key content now s = Inr s' \<and> length s' = length s"
    if full: "N < int (length s)" for s :: "'e CacheNode list" and key content now
  proof (cases "key \<in> cacheKey ` set s")
    case True
    then show ?thesis by (simp add: activate_seen)
  next
    case False
    from activate_unseen_step[OF assms(1) False, of mat content now] obtain s' where
      "activate N mat key content now s = Inr s'"
      "length s' = (if N < int (length s) then length s else Suc (length s))" by blast
    then show ?thesis using full by simp
  qed
  show ?thesis using run room full by blast
qed

text \<open>Claim C1 on the spec's scenario: \<^verbatim>\<open>max = 2\<close> and the keys a, b, c, d.\<close>

theorem size_stabilizes_above_max_witness:
  "(0::int) \<le> 2
   \<and> distinct (map fst [(''a'', (), 1::int), (''b'', (), 2), (''c'', (), 3), (''d'', (), 4)])
   \<and> (\<exists>s. activations 2 (Num 0) [(''a'', (), 1), (''b'', (), 2), (''c'', (), 3), (''d'', (), 4)] [] = Inr s
          \<and> length s = 3)"
proof -
  let ?acts = "[(''a'', (), 1::int), (''b'', (), 2), (''c'', (), 3), (''d'', (), 4)]"
  have h1: "(0::int) \<le> 2" by simp
  have h2: "distinct (map fst ?acts)" by simp
  have "\<exists>s. activations 2 (Num 0) ?acts [] = Inr s \<and> length s = min (length ?acts) (nat 2 + 1)"
    using size_stabilizes_above_max[OF h1 h2, of "Num 0"] by (rule conjunct1)
  moreover have "min (length ?acts) (nat 2 + 1) = 3" by simp
  ultimately have "\<exists>s. activations 2 (Num 0) ?acts [] = Inr s \<and> length s = 3"
    by (simp only:)
  then show ?thesis using h1 h2 by blast
qed

subsection \<open>Reactivation and expiration\<close>

lemma reactivate_hit:
  "cacheKey item = key \<Longrightarrow>
     reactivate mat key content now item =
       item\<lparr>ele := content, lastActiveTime := now,
            renderCount := (if needUpdate mat key (lastActiveTime item) now
                            then renderCount item + 1 else renderCount item)\<rparr>"
  by (simp add: reactivate_def)

lemma reactivate_miss: "cacheKey item \<noteq> key \<Longrightarrow> reactivate mat key content now item = item"
  by (simp add: reactivate_def)

lemma needUpdate_Num_0: "needUpdate (Num 0) key prev now = False"
  by (simp add: needUpdate_def)

lemma maxAliveTime_of_default:
  "maxAliveTime props = None \<or> maxAliveTime props = Some (Num 0) \<Longrightarrow> maxAliveTime_of props = Num 0"
  by (auto simp: maxAliveTime_of_def)

text \<open>
  Claim C3. When the active key is the key of the entry at position \<open>i\<close>, the layout
  effect succeeds, the store keeps its length, and that entry gets the new children
  as \<^verbatim>\<open>ele\<close> and \<open>now\<close> as \<^verbatim>\<open>lastActiveTime\<close>; its \<^verbatim>\<open>renderCount\<close> grows by exactly 1
  when \<open>needUpdate\<close> holds for its previous \<^verbatim>\<open>lastActiveTime\<close> and \<open>now\<close>, and stays as
  it is otherwise; with \<^verbatim>\<open>maxAliveTime\<close> absent or 0 it never changes.
\<close>

theorem reactivation_updates_entry:
  fixes s :: "'e CacheNode list"
  assumes "activeCacheKey props = Some key" and "i < length s" and "cacheKey (s ! i) = key"
  shows "\<exists>s'. layoutEffect props now s = Inr s' \<and> length s' = length s
           \<and> cacheKey (s' ! i) = key
           \<and> ele (s' ! i) = children props
           \<and> lastActiveTime (s' ! i) = now
           \<and> renderCount (s' ! i) =
               (if needUpdate (maxAliveTime_of props) key (lastActiveTime (s ! i)) now
                then renderCount (s ! i) + 1 else renderCount (s ! i))
           \<and> (maxAliveTime props = None \<or> maxAliveTime props = Some (Num 0)
                \<longrightarrow> renderCount (s' ! i) = renderCount (s ! i))"
proof -
  let ?f = "reactivate (maxAliveTime_of props) key (children props) now"
  have "s ! i \<in> set s" using assms(2) by simp
  then have seen: "key \<in> cacheKey ` set s" using assms(3) by blast
  have run: "layoutEffect props now s = Inr (map ?f s)"
    using assms(1) activate_seen[OF seen] by (simp add: layoutEffect_def)
  have nth: "map ?f s ! i = ?f (s ! i)" using assms(2) by simp
  have upd: "?f (s ! i) =
      (s ! i)\<lparr>ele := children props, lastActiveTime := now,
               renderCount := (if needUpdate (maxAliveTime_of props) key (lastActiveTime (s ! i)) now
                               then renderCount (s ! i) + 1 else renderCount (s ! i))\<rparr>"
    using assms(3) by (rule reactivate_hit)
  have "cacheKey (map ?f s ! i) = key" using nth upd assms(3) by simp
  moreover have "ele (map ?f s ! i) = children props" using nth upd by simp
  moreover have "lastActiveTime (map ?f s ! i) = now" using nth upd by simp
  moreover have rc: "renderCount (map ?f s ! i) =
      (if needUpdate (maxAliveTime_of props) key (lastActiveTime (s ! i)) now
       then renderCount (s ! i) + 1 else renderCount (s ! i))" using nth upd by simp
  moreover have "renderCount (map ?f s ! i) = renderCount (s ! i)"
    if "maxAliveTime props = None \<or> maxAliveTime props = Some (Num 0)"
    using rc maxAliveTime_of_default[OF that] by (simp add: needUpdate_Num_0)
  moreover have "length (map ?f s) = length s" by simp
  ultimately show ?thesis using run by blast
qed

text \<open>
  Claim C3 on the spec's scenario: the rule list \<^verbatim>\<open>[{match: "x", expire: 5}]\<close>, the
  key x activated at 0 and again at 6000.
\<close>

theorem reactivation_updates_entry_witness:
  "activeCacheKey \<lparr>activeCacheKey = Some ''x'', children = (7::nat), max_prop = None,
       maxAliveTime = Some (Arr [\<lparr>match = MatchString ''x'', expire = 5\<rparr>])\<rparr> = Some ''x''
   \<and> (0::nat) < length [\<lparr>cacheKey = ''x'', ele = (3::nat), lastActiveTime = 0, renderCount = 0\<rparr>]
   \<and> (\<exists>s'. layoutEffect \<lparr>activeCacheKey = Some ''x'', children = (7::nat), max_prop = None,
                 maxAliveTime = Some (Arr [\<lparr>match = MatchString ''x'', expire = 5\<rparr>])\<rparr> 6000
               [\<lparr>cacheKey = ''x'', ele = (3::nat), lastActiveTime = 0, renderCount = 0\<rparr>] = Inr s'
          \<and> ele (s' ! 0) = 7 \<and> lastActiveTime (s' ! 0) = 6000 \<and> renderCount (s' ! 0) = 1)"
  using reactivation_updates_entry[of
     "\<lparr>activeCacheKey = Some ''x'', children = (7::nat), max_prop = None,
       maxAliveTime = Some (Arr [\<lparr>match = MatchString ''x'', expire = 5\<rparr>])\<rparr>"
     "''x''" 0 "[\<lparr>cacheKey = ''x'', ele = (3::nat), lastActiveTime = 0, renderCount = 0\<rparr>]" 6000]
  by (auto simp: needUpdate_def maxAliveTime_of_def test_match_def)

lemma needUpdate_Arr_first:
  assumes "i < length configs" and "test_match (match (configs ! i)) key"
    and "\<forall>j < i. \<not> test_match (match (configs ! j)) key"
  shows "needUpdate (Arr configs) key prev now = (prev + expire (configs ! i) * 1000 < now)"
proof -
  have "find (\<lambda>item. test_match (match item) key) configs = Some (configs ! i)"
    using assms by (auto simp: find_Some_iff)
  then show ?thesis by (simp add: needUpdate_def)
qed

lemma needUpdate_Arr_none:
  assumes "\<forall>c \<in> set configs. \<not> test_match (match c) key"
  shows "needUpdate (Arr configs) key prev now = False"
proof -
  have "find (\<lambda>item. test_match (match item) key) configs = None"
    using assms by (simp add: find_None_iff)
  then show ?thesis by (simp add: needUpdate_def)
qed

text \<open>
  Claim C4. The expiration evaluation is false when \<^verbatim>\<open>maxAliveTime\<close> is 0 or absent;
  for a single duration \<open>d\<close> other than 0 it is \<open>prev + d * 1000 < now\<close>; for a rule
  list it takes the first rule whose \<^verbatim>\<open>match\<close> tests the key (a string by equality, a
  pattern by its test) and is \<open>prev + expire * 1000 < now\<close> for that rule, the
  comparison of the scalar case; and it is false when no rule matches.
\<close>

theorem expiration_evaluation:
  "needUpdate (Num 0) key prev now = False
   \<and> (maxAliveTime props = None \<longrightarrow> needUpdate (maxAliveTime_of props) key prev now = False)
   \<and> (d \<noteq> 0 \<longrightarrow> needUpdate (Num d) key prev now = (prev + d * 1000 < now))
   \<and> (i < length configs \<and> test_match (match (configs ! i)) key
        \<and> (\<forall>j < i. \<not> test_match (match (configs ! j)) key)
         \<longrightarrow> needUpdate (Arr configs) key prev now = (prev + expire (configs ! i) * 1000 < now))
   \<and> ((\<forall>c \<in> set configs. \<not> test_match (match c) key)
         \<longrightarrow> needUpdate (Arr configs) key prev now = False)
   \<and> test_match (MatchString str) key = (str = key)
   \<and> test_match (MatchRegExp r) key = r key"
proof -
  have "maxAliveTime props = None \<longrightarrow> needUpdate (maxAliveTime_of props) key prev now = False"
    using maxAliveTime_of_default[of props] by (simp add: needUpdate_Num_0)
  moreover have "d \<noteq> 0 \<longrightarrow> needUpdate (Num d) key prev now = (prev + d * 1000 < now)"
    by (simp add: needUpdate_def)
  moreover have "i < length configs \<and> test_match (match (configs ! i)) key
        \<and> (\<forall>j < i. \<not> test_match (match (configs ! j)) key)
         \<longrightarrow> needUpdate (Arr configs) key prev now = (prev + expire (configs ! i) * 1000 < now)"
    using needUpdate_Arr_first by blast
  moreover have "(\<forall>c \<in> set configs. \<not> test_match (match c) key)
         \<longrightarrow> needUpdate (Arr configs) key prev now = False"
    using needUpdate_Arr_none by blast
  moreover have "test_match (MatchString str) key = (str = key)"
    and "test_match (MatchRegExp r) key = r key"
    by (simp_all add: test_match_def)
  ultimately show ?thesis using needUpdate_Num_0 by blast
qed

text \<open>Claim C4 on a duration of 5 seconds and on rule lists.\<close>

theorem expiration_evaluation_witness:
  "needUpdate (Num 5) ''x'' 0 6000
   \<and> needUpdate (Arr [\<lparr>match = MatchString ''y'', expire = 1\<rparr>,
                      \<lparr>match = MatchRegExp (\<lambda>k. k \<noteq> []), expire = 5\<rparr>,
                      \<lparr>match = MatchString ''x'', expire = 9\<rparr>]) ''x'' 0 6000
   \<and> \<not> needUpdate (Arr [\<lparr>match = MatchString ''y'', expire = 1\<rparr>]) ''x'' 0 6000
   \<and> \<not> needUpdate (maxAliveTime_of
           \<lparr>activeCacheKey = Some ''x'', children = (), max_prop = None, maxAliveTime = None\<rparr>)
         ''x'' 0 6000"
  using expiration_evaluation[of "''x''" 0 6000
          "\<lparr>activeCacheKey = Some ''x'', children = (), max_prop = None, maxAliveTime = None\<rparr>" 5 1
          "[\<lparr>match = MatchString ''y'', expire = 1\<rparr>,
            \<lparr>match = MatchRegExp (\<lambda>k. k \<noteq> []), expire = 5\<rparr>,
            \<lparr>match = MatchString ''x'', expire = 9\<rparr>]" "''y''" "\<lambda>k. k \<noteq> []"]
        expiration_evaluation[of "''x''" 0 6000
          "\<lparr>activeCacheKey = Some ''x'', children = (), max_prop = None, maxAliveTime = None\<rparr>" 5 0
          "[\<lparr>match = MatchString ''y'', expire = 1\<rparr>]" "''y''" "\<lambda>k. k \<noteq> []"]
  by simp

text \<open>
  Claim C5 at a rule whose \<^verbatim>\<open>expire\<close> is 0: the scalar 0 is caught by the truthiness
  test of line 138, but a rule's \<^verbatim>\<open>expire\<close> is not tested, so the entry is expired as
  soon as time has passed.
\<close>

theorem zero_expire_rule_expires:
  "needUpdate (Arr [\<lparr>match = MatchString ''x'', expire = 0\<rparr>]) ''x'' 0 1 = True
   \<and> needUpdate (Num 0) ''x'' 0 1 = False"
  by (simp add: needUpdate_def test_match_def)

subsection \<open>The task queue\<close>

lemma cacheNodes_macroTask: "cacheNodes (macroTask t st) = cacheNodes st"
  by (simp add: macroTask_def)

lemma macroTasks_macroTask: "macroTasks (macroTask t st) = macroTasks st @ [t]"
  by (simp add: macroTask_def)

lemma macroTasks_yield: "macroTasks (yield st) = tl (macroTasks st)"
  by (simp add: yield_def split: list.splits)

lemma yield_macroTask_Cons:
  "macroTasks st \<noteq> [] \<Longrightarrow> yield (macroTask t st) = macroTask t (yield st)"
  by (cases "macroTasks st") (simp_all add: yield_def macroTask_def)

lemma yield_macroTask_Nil:
  "macroTasks st = [] \<Longrightarrow> cacheNodes (yield (macroTask t st)) = run_task t (cacheNodes st)"
  by (simp add: yield_def macroTask_def)

lemma pending_first:
  "length (macroTasks st) = n \<Longrightarrow>
     (yield ^^ n) (macroTask t st) = macroTask t ((yield ^^ n) st)
     \<and> macroTasks ((yield ^^ n) st) = []"
proof (induction n arbitrary: st)
  case 0
  then show ?case by simp
next
  case (Suc n)
  then have ne: "macroTasks st \<noteq> []" by auto
  have len: "length (macroTasks (yield st)) = n"
    using Suc.prems by (simp add: macroTasks_yield)
  from Suc.IH[OF len] have ih: "(yield ^^ n) (macroTask t (yield st)) = macroTask t ((yield ^^ n) (yield st))"
    and emp: "macroTasks ((yield ^^ n) (yield st)) = []" by simp_all
  have "(yield ^^ Suc n) (macroTask t st) = (yield ^^ n) (yield (macroTask t st))"
    by (simp only: funpow_Suc_right o_apply)
  also have "\<dots> = (yield ^^ n) (macroTask t (yield st))"
    using yield_macroTask_Cons[OF ne] by simp
  also have "\<dots> = macroTask t ((yield ^^ n) (yield st))" by (rule ih)
  also have "\<dots> = macroTask t ((yield ^^ Suc n) st)"
    by (simp only: funpow_Suc_right o_apply)
  finally have a: "(yield ^^ Suc n) (macroTask t st) = macroTask t ((yield ^^ Suc n) st)" .
  have b: "macroTasks ((yield ^^ Suc n) st) = []"
    using emp by (simp only: funpow_Suc_right o_apply)
  show ?case using a b by blast
qed

lemma deferred_job_runs:
  "cacheNodes ((yield ^^ Suc (length (macroTasks st))) (macroTask t st))
     = run_task t (cacheNodes ((yield ^^ length (macroTasks st)) st))"
proof -
  let ?n = "length (macroTasks st)"
  from pending_first[of st ?n t] have a: "(yield ^^ ?n) (macroTask t st) = macroTask t ((yield ^^ ?n) st)"
    and b: "macroTasks ((yield ^^ ?n) st) = []" by simp_all
  have "(yield ^^ Suc ?n) (macroTask t st) = yield ((yield ^^ ?n) (macroTask t st))" by simp
  then show ?thesis using a yield_macroTask_Nil[OF b] by simp
qed

subsection \<open>The deferred operations\<close>

lemma destroy_keys_Strs: "destroy_keys props (Some (Strs ks)) = map Some ks"
  by (simp add: destroy_keys_def destroy_target_def)

lemma run_task_Destroy_Some:
  "run_task (Destroy (map Some ks)) s = filter (\<lambda>item. cacheKey item \<notin> set ks) s"
  by (induction s) auto

text \<open>
  Claim C6. \<^verbatim>\<open>destroy([a, b])\<close> changes nothing at once. Once the jobs queued before it
  and its own job have run, the store is the store its job found without the entries
  whose key is \<open>a\<close> or \<open>b\<close>: no entry of key \<open>a\<close> or \<open>b\<close> is left, and every other entry
  is there, unchanged and in its place. With no job pending, that is one yield.
\<close>

theorem destroy_pair_removes_exactly:
  "cacheNodes ((yield ^^ Suc (length (macroTasks st))) (destroy props (Some (Strs [a, b])) st))
     = filter (\<lambda>item. cacheKey item \<noteq> a \<and> cacheKey item \<noteq> b)
         (cacheNodes ((yield ^^ length (macroTasks st)) st))
   \<and> cacheNodes (yield (destroy props (Some (Strs [a, b])) \<lparr>cacheNodes = s, macroTasks = []\<rparr>))
     = filter (\<lambda>item. cacheKey item \<noteq> a \<and> cacheKey item \<noteq> b) s
   \<and> cacheNodes (destroy props (Some (Strs [a, b])) st) = cacheNodes st"
proof -
  have run: "run_task (Destroy (destroy_keys props (Some (Strs [a, b])))) xs
               = filter (\<lambda>item. cacheKey item \<noteq> a \<and> cacheKey item \<noteq> b) xs" for xs :: "'a CacheNode list"
    by (simp only: destroy_keys_Strs run_task_Destroy_Some) simp
  have "cacheNodes ((yield ^^ Suc (length (macroTasks st))) (destroy props (Some (Strs [a, b])) st))
     = filter (\<lambda>item. cacheKey item \<noteq> a \<and> cacheKey item \<noteq> b)
         (cacheNodes ((yield ^^ length (macroTasks st)) st))"
    unfolding destroy_def by (simp only: deferred_job_runs run)
  moreover have "cacheNodes (yield (destroy props (Some (Strs [a, b])) \<lparr>cacheNodes = s, macroTasks = []\<rparr>))
     = filter (\<lambda>item. cacheKey item \<noteq> a \<and> cacheKey item \<noteq> b) s"
    unfolding destroy_def by (simp add: yield_macroTask_Nil run del: run_task.simps)
  moreover have "cacheNodes (destroy props (Some (Strs [a, b])) st) = cacheNodes st"
    by (simp add: destroy_def cacheNodes_macroTask)
  ultimately show ?thesis by blast
qed

lemma or_active_Some: "k \<noteq> [] \<Longrightarrow> or_active (Some k) active = Some k"
  by (simp add: or_active_def)

lemma or_active_empty: "or_active (Some []) active = or_active None active"
  by (simp add: or_active_def)

lemma or_active_None: "or_active None active = active"
  by (simp add: or_active_def)

lemma filter_key_present:
  "distinct (map cacheKey s) \<Longrightarrow> i < length s \<Longrightarrow>
     filter (\<lambda>item. cacheKey item = cacheKey (s ! i)) s = [s ! i]"
proof (induction s arbitrary: i)
  case Nil
  then show ?case by simp
next
  case (Cons x xs)
  have notin: "cacheKey x \<notin> cacheKey ` set xs" and d: "distinct (map cacheKey xs)"
    using Cons.prems(1) by simp_all
  show ?case
  proof (cases i)
    case 0
    have "\<forall>item \<in> set xs. cacheKey item \<noteq> cacheKey x"
      using notin by (metis imageI)
    then have "filter (\<lambda>item. cacheKey item = cacheKey x) xs = []"
      by (simp add: filter_empty_conv)
    then show ?thesis using 0 by simp
  next
    case (Suc n)
    then have n: "n < length xs" using Cons.prems(2) by simp
    then have "xs ! n \<in> set xs" by simp
    then have "cacheKey x \<noteq> cacheKey (xs ! n)" using notin by (metis imageI)
    then show ?thesis using Suc Cons.IH[OF d n] by simp
  qed
qed

lemma filter_key_absent:
  "k \<notin> cacheKey ` set s \<Longrightarrow> filter (\<lambda>item. cacheKey item = k) s = []"
  by (induction s) auto

text \<open>
  Claim C7, for a key \<open>k\<close> that is not the empty string. Once the job of
  \<^verbatim>\<open>destroyOther(k)\<close> has run, the store holds the entries of key \<open>k\<close> that the job
  found and nothing else: exactly that entry when keys are unique and an entry has key
  \<open>k\<close>, none when no entry has key \<open>k\<close>.
\<close>

theorem destroyOther_keeps_only_key:
  assumes "k \<noteq> []"
  shows "cacheNodes ((yield ^^ Suc (length (macroTasks st))) (destroyOther props (Some k) st))
           = filter (\<lambda>item. cacheKey item = k) (cacheNodes ((yield ^^ length (macroTasks st)) st))
       \<and> cacheNodes (yield (destroyOther props (Some k) \<lparr>cacheNodes = s, macroTasks = []\<rparr>))
           = filter (\<lambda>item. cacheKey item = k) s
       \<and> (distinct (map cacheKey s) \<and> i < length s \<and> cacheKey (s ! i) = k
            \<longrightarrow> filter (\<lambda>item. cacheKey item = k) s = [s ! i])
       \<and> (k \<notin> cacheKey ` set s \<longrightarrow> filter (\<lambda>item. cacheKey item = k) s = [])"
proof -
  have run: "run_task (DestroyOther (or_active (Some k) (activeCacheKey props))) xs
               = filter (\<lambda>item. cacheKey item = k) xs" for xs :: "'a CacheNode list"
    using assms by (simp add: or_active_Some)
  have "cacheNodes ((yield ^^ Suc (length (macroTasks st))) (destroyOther props (Some k) st))
           = filter (\<lambda>item. cacheKey item = k) (cacheNodes ((yield ^^ length (macroTasks st)) st))"
    unfolding destroyOther_def by (simp only: deferred_job_runs run)
  moreover have "cacheNodes (yield (destroyOther props (Some k) \<lparr>cacheNodes = s, macroTasks = []\<rparr>))
           = filter (\<lambda>item. cacheKey item = k) s"
    unfolding destroyOther_def by (simp add: yield_macroTask_Nil run del: run_task.simps)
  moreover have "filter (\<lambda>item. cacheKey item = k) s = [s ! i]"
    if "distinct (map cacheKey s) \<and> i < length s \<and> cacheKey (s ! i) = k"
    using that filter_key_present[of s i] by auto
  ultimately show ?thesis using filter_key_absent[of k s] by blast
qed

text \<open>Claim C7 on a store of two entries, keeping \<open>b\<close>.\<close>

theorem destroyOther_keeps_only_key_witness:
  "''b'' \<noteq> []
   \<and> cacheNodes (yield (destroyOther
        \<lparr>activeCacheKey = Some ''a'', children = (), max_prop = None, maxAliveTime = None\<rparr> (Some ''b'')
        \<lparr>cacheNodes = [\<lparr>cacheKey = ''a'', ele = (), lastActiveTime = 1, renderCount = 0\<rparr>,
                       \<lparr>cacheKey = ''b'', ele = (), lastActiveTime = 2, renderCount = 0\<rparr>],
         macroTasks = []\<rparr>))
     = [\<lparr>cacheKey = ''b'', ele = (), lastActiveTime = 2, renderCount = 0\<rparr>]"
  using destroyOther_keeps_only_key[where k = "''b''" and i = 1
      and st = "\<lparr>cacheNodes = [], macroTasks = []\<rparr>"
      and props = "\<lparr>activeCacheKey = Some ''a'', children = (), max_prop = None, maxAliveTime = None\<rparr>"
      and s = "[\<lparr>cacheKey = ''a'', ele = (), lastActiveTime = 1, renderCount = 0\<rparr>,
                \<lparr>cacheKey = ''b'', ele = (), lastActiveTime = 2, renderCount = 0\<rparr>]"]
  by simp

text \<open>
  Claim C7 as stated covers every key. For the empty string, \<^verbatim>\<open>cacheKey || activeCacheKey\<close>
  is the active key: no entry has the key \<^verbatim>\<open>""\<close>, yet the store is not emptied, the
  entry of the active key \<open>a\<close> stays.
\<close>

theorem destroyOther_empty_key_counterexample:
  "'''' \<notin> cacheKey ` set [\<lparr>cacheKey = ''a'', ele = (), lastActiveTime = 1, renderCount = 0\<rparr>]
   \<and> cacheNodes (yield (destroyOther
        \<lparr>activeCacheKey = Some ''a'', children = (), max_prop = None, maxAliveTime = None\<rparr> (Some '''')
        \<lparr>cacheNodes = [\<lparr>cacheKey = ''a'', ele = (), lastActiveTime = 1, renderCount = 0\<rparr>],
         macroTasks = []\<rparr>))
     = [\<lparr>cacheKey = ''a'', ele = (), lastActiveTime = 1, renderCount = 0\<rparr>]
   \<and> cacheNodes (yield (destroyOther
        \<lparr>activeCacheKey = Some ''a'', children = (), max_prop = None, maxAliveTime = None\<rparr> (Some '''')
        \<lparr>cacheNodes = [\<lparr>cacheKey = ''a'', ele = (), lastActiveTime = 1, renderCount = 0\<rparr>],
         macroTasks = []\<rparr>))
     \<noteq> []"
  by (simp add: destroyOther_def macroTask_def yield_def or_active_def)

text \<open>
  Claim C8, for a key \<open>k\<close> that is not the empty string. \<^verbatim>\<open>refresh(k)\<close> keeps the length
  of the store; an entry of key \<open>k\<close> has its \<^verbatim>\<open>renderCount\<close> incremented by exactly 1 and
  its key, \<^verbatim>\<open>ele\<close> and \<^verbatim>\<open>lastActiveTime\<close> unchanged; every other entry is unchanged; and
  the store is unchanged when no entry has key \<open>k\<close>.
\<close>

theorem refresh_increments_only_target:
  fixes s :: "'e CacheNode list"
  assumes "k \<noteq> []"
  shows "length (refresh props (Some k) s) = length s
       \<and> (i < length s \<and> cacheKey (s ! i) = k \<longrightarrow>
            refresh props (Some k) s ! i = (s ! i)\<lparr>renderCount := renderCount (s ! i) + 1\<rparr>
            \<and> cacheKey (refresh props (Some k) s ! i) = k
            \<and> ele (refresh props (Some k) s ! i) = ele (s ! i)
            \<and> lastActiveTime (refresh props (Some k) s ! i) = lastActiveTime (s ! i)
            \<and> renderCount (refresh props (Some k) s ! i) = renderCount (s ! i) + 1)
       \<and> (i < length s \<and> cacheKey (s ! i) \<noteq> k \<longrightarrow> refresh props (Some k) s ! i = s ! i)
       \<and> (k \<notin> cacheKey ` set s \<longrightarrow> refresh props (Some k) s = s)"
proof -
  let ?f = "\<lambda>item :: 'e CacheNode. if cacheKey item = k
                   then item\<lparr>renderCount := renderCount item + 1\<rparr> else item"
  have eq: "refresh props (Some k) s = map ?f s"
    using assms by (simp add: refresh_def or_active_Some)
  have "k \<notin> cacheKey ` set s \<longrightarrow> map ?f s = s"
    by (induction s) auto
  then show ?thesis unfolding eq by simp
qed

text \<open>Claim C8 on a store of two entries, refreshing \<open>b\<close>.\<close>

theorem refresh_increments_only_target_witness:
  "''b'' \<noteq> []
   \<and> refresh \<lparr>activeCacheKey = Some ''a'', children = (), max_prop = None, maxAliveTime = None\<rparr> (Some ''b'')
        [\<lparr>cacheKey = ''a'', ele = (), lastActiveTime = 1, renderCount = 0\<rparr>,
         \<lparr>cacheKey = ''b'', ele = (), lastActiveTime = 2, renderCount = 0\<rparr>] ! 1
      = \<lparr>cacheKey = ''b'', ele = (), lastActiveTime = 2, renderCount = 1\<rparr>
   \<and> refresh \<lparr>activeCacheKey = Some ''a'', children = (), max_prop = None, maxAliveTime = None\<rparr> (Some ''b'')
        [\<lparr>cacheKey = ''a'', ele = (), lastActiveTime = 1, renderCount = 0\<rparr>,
         \<lparr>cacheKey = ''b'', ele = (), lastActiveTime = 2, renderCount = 0\<rparr>] ! 0
      = \<lparr>cacheKey = ''a'', ele = (), lastActiveTime = 1, renderCount = 0\<rparr>"
  using refresh_increments_only_target[of "''b''"
      "\<lparr>activeCacheKey = Some ''a'', children = (), max_prop = None, maxAliveTime = None\<rparr>"
      "[\<lparr>cacheKey = ''a'', ele = (), lastActiveTime = 1, renderCount = 0\<rparr>,
        \<lparr>cacheKey = ''b'', ele = (), lastActiveTime = 2, renderCount = 0\<rparr>]" 1]
    refresh_increments_only_target[of "''b''"
      "\<lparr>activeCacheKey = Some ''a'', children = (), max_prop = None, maxAliveTime = None\<rparr>"
      "[\<lparr>cacheKey = ''a'', ele = (), lastActiveTime = 1, renderCount = 0\<rparr>,
        \<lparr>cacheKey = ''b'', ele = (), lastActiveTime = 2, renderCount = 0\<rparr>]" 0]
  by simp

text \<open>
  Claim C8 as stated covers every key. \<^verbatim>\<open>refresh("")\<close> targets the active key: no
  entry has the key \<^verbatim>\<open>""\<close>, yet the store changes, the entry of the active key \<open>a\<close> is
  incremented.
\<close>

theorem refresh_empty_key_counterexample:
  "'''' \<notin> cacheKey ` set [\<lparr>cacheKey = ''a'', ele = (), lastActiveTime = 1, renderCount = 0\<rparr>]
   \<and> refresh \<lparr>activeCacheKey = Some ''a'', children = (), max_prop = None, maxAliveTime = None\<rparr> (Some '''')
        [\<lparr>cacheKey = ''a'', ele = (), lastActiveTime = 1, renderCount = 0\<rparr>]
      = [\<lparr>cacheKey = ''a'', ele = (), lastActiveTime = 1, renderCount = 1\<rparr>]
   \<and> refresh \<lparr>activeCacheKey = Some ''a'', children = (), max_prop = None, maxAliveTime = None\<rparr> (Some '''')
        [\<lparr>cacheKey = ''a'', ele = (), lastActiveTime = 1, renderCount = 0\<rparr>]
      \<noteq> [\<lparr>cacheKey = ''a'', ele = (), lastActiveTime = 1, renderCount = 0\<rparr>]"
  by (simp add: refresh_def or_active_def)

subsection \<open>Unique keys\<close>

lemma evict_distinct:
  assumes "evict s = Inr rest" and "distinct (map cacheKey s)"
  shows "distinct (map cacheKey rest) \<and> set rest \<subseteq> set s"
proof (cases "s = []")
  case True
  then show ?thesis using assms(1) by (simp add: evict_Nil)
next
  case False
  from evict_last_min[OF False] obtain j where j: "j < length s"
    and ev: "evict s = Inr (take j s @ drop (Suc j) s)" by blast
  have rest: "rest = take j s @ drop (Suc j) s" using ev assms(1) by simp
  have "s = take j s @ s ! j # drop (Suc j) s" using j by (rule id_take_nth_drop)
  then have "map cacheKey s = map cacheKey (take j s) @ cacheKey (s ! j) # map cacheKey (drop (Suc j) s)"
    by (metis list.simps(9) map_append)
  then have "distinct (map cacheKey (take j s) @ cacheKey (s ! j) # map cacheKey (drop (Suc j) s))"
    using assms(2) by simp
  then have "distinct (map cacheKey (take j s @ drop (Suc j) s))" by auto
  moreover have "set (take j s @ drop (Suc j) s) \<subseteq> set s"
    using set_take_subset[of j s] set_drop_subset[of "Suc j" s] by simp
  ultimately show ?thesis using rest by simp
qed

lemma activate_distinct:
  assumes "distinct (map cacheKey s)" and "activate mx mat key content now s = Inr s'"
  shows "distinct (map cacheKey s')"
proof (cases "key \<in> cacheKey ` set s")
  case True
  then have "s' = map (reactivate mat key content now) s"
    using assms(2) by (simp add: activate_seen)
  then show ?thesis using assms(1) by (simp only: map_cacheKey_reactivate)
next
  case unseen: False
  let ?node = "\<lparr>cacheKey = key, ele = content, lastActiveTime = now, renderCount = 0\<rparr>"
  show ?thesis
  proof (cases "mx < int (length s)")
    case True
    from activate_unseen_full[OF unseen True, of mat content now] assms(2)
    obtain rest where r: "evict s = Inr rest" and s': "s' = rest @ [?node]"
      by (auto split: sum.splits)
    from evict_distinct[OF r assms(1)] have "distinct (map cacheKey rest)" "set rest \<subseteq> set s"
      by simp_all
    then show ?thesis using unseen s' by auto
  next
    case False
    then have "int (length s) \<le> mx" by simp
    from activate_unseen_room[OF unseen this, of mat content now] assms(2)
    have "s' = s @ [?node]" by simp
    then show ?thesis using unseen assms(1) by auto
  qed
qed

lemma activate_returns:
  assumes "0 \<le> mx \<or> s \<noteq> []"
  shows "\<exists>s'. activate mx mat key content now s = Inr s'"
proof (cases "key \<in> cacheKey ` set s")
  case True
  then show ?thesis by (simp add: activate_seen)
next
  case unseen: False
  show ?thesis
  proof (cases "mx < int (length s)")
    case True
    then have "s \<noteq> []" using assms by auto
    from evict_length[OF this] obtain rest where "evict s = Inr rest" by blast
    then show ?thesis using activate_unseen_full[OF unseen True, of mat content now] by simp
  next
    case False
    then have "int (length s) \<le> mx" by simp
    from activate_unseen_room[OF unseen this, of mat content now] show ?thesis by simp
  qed
qed

lemma map_cacheKey_refresh: "map cacheKey (refresh props key s) = map cacheKey s"
  by (simp add: refresh_def Let_def comp_def if_distrib[of cacheKey] cong: if_cong)

lemma run_task_distinct:
  "distinct (map cacheKey s) \<Longrightarrow> distinct (map cacheKey (run_task t s))"
  by (cases t) (simp_all add: distinct_map_filter)

lemma yield_distinct:
  "distinct (map cacheKey (cacheNodes st)) \<Longrightarrow> distinct (map cacheKey (cacheNodes (yield st)))"
  by (cases "macroTasks st") (simp_all add: yield_def run_task_distinct del: run_task.simps)

lemma yields_distinct:
  "distinct (map cacheKey (cacheNodes st)) \<Longrightarrow>
     distinct (map cacheKey (cacheNodes ((yield ^^ n) st)))"
  by (induction n) (simp_all add: yield_distinct)

text \<open>
  Claim C9. From a store in which no two entries share a key: the store that the
  layout effect yields has unique keys (update, or insertion with or without
  eviction), and the effect does yield a store when \<^verbatim>\<open>max\<close> is not negative or the
  store is not empty; the store after \<^verbatim>\<open>refresh\<close> has unique keys; and so has the
  store after \<^verbatim>\<open>destroy\<close>, \<^verbatim>\<open>destroyAll\<close> or \<^verbatim>\<open>destroyOther\<close> and any number of
  yields.
\<close>

theorem key_uniqueness_invariant:
  assumes "distinct (map cacheKey (cacheNodes st))"
  shows "(\<forall>s'. layoutEffect props now (cacheNodes st) = Inr s' \<longrightarrow> distinct (map cacheKey s'))
       \<and> (0 \<le> max_of props \<or> cacheNodes st \<noteq> [] \<longrightarrow>
            (\<exists>s'. layoutEffect props now (cacheNodes st) = Inr s'))
       \<and> distinct (map cacheKey (refresh props key (cacheNodes st)))
       \<and> distinct (map cacheKey (cacheNodes ((yield ^^ n) (destroy props keys st))))
       \<and> distinct (map cacheKey (cacheNodes ((yield ^^ n) (destroyAll st))))
       \<and> distinct (map cacheKey (cacheNodes ((yield ^^ n) (destroyOther props key st))))"
proof -
  have "distinct (map cacheKey s')" if "layoutEffect props now (cacheNodes st) = Inr s'" for s'
  proof (cases "activeCacheKey props")
    case None
    then show ?thesis using that assms by (simp add: layoutEffect_def)
  next
    case (Some k)
    then have "activate (max_of props) (maxAliveTime_of props) k (children props) now (cacheNodes st) = Inr s'"
      using that by (simp add: layoutEffect_def)
    from activate_distinct[OF assms this] show ?thesis .
  qed
  moreover have "\<exists>s'. layoutEffect props now (cacheNodes st) = Inr s'"
    if "0 \<le> max_of props \<or> cacheNodes st \<noteq> []"
  proof (cases "activeCacheKey props")
    case None
    then show ?thesis by (simp add: layoutEffect_def)
  next
    case (Some k)
    then show ?thesis using activate_returns[OF that] by (simp add: layoutEffect_def)
  qed
  moreover have "distinct (map cacheKey (refresh props key (cacheNodes st)))"
    using assms by (simp only: map_cacheKey_refresh)
  moreover have "distinct (map cacheKey (cacheNodes ((yield ^^ n) (macroTask t st))))" for t
    using assms by (intro yields_distinct) (simp only: cacheNodes_macroTask)
  ultimately show ?thesis unfolding destroy_def destroyAll_def destroyOther_def by blast
qed

text \<open>Claim C9 on a store of two entries under \<^verbatim>\<open>max = 1\<close>.\<close>

theorem key_uniqueness_invariant_witness:
  "distinct (map cacheKey (cacheNodes
      \<lparr>cacheNodes = [\<lparr>cacheKey = ''a'', ele = (), lastActiveTime = 1, renderCount = 0\<rparr>,
                     \<lparr>cacheKey = ''b'', ele = (), lastActiveTime = 2, renderCount = 0\<rparr>],
       macroTasks = []\<rparr>))
   \<and> (\<exists>s'. layoutEffect
              \<lparr>activeCacheKey = Some ''c'', children = (), max_prop = Some 1, maxAliveTime = None\<rparr> 3
              (cacheNodes
                \<lparr>cacheNodes = [\<lparr>cacheKey = ''a'', ele = (), lastActiveTime = 1, renderCount = 0\<rparr>,
                               \<lparr>cacheKey = ''b'', ele = (), lastActiveTime = 2, renderCount = 0\<rparr>],
                 macroTasks = []\<rparr>) = Inr s'
          \<and> distinct (map cacheKey s'))
   \<and> distinct (map cacheKey (cacheNodes ((yield ^^ 1) (destroy
        \<lparr>activeCacheKey = Some ''c'', children = (), max_prop = Some 1, maxAliveTime = None\<rparr>
        (Some (Str ''a''))
        \<lparr>cacheNodes = [\<lparr>cacheKey = ''a'', ele = (), lastActiveTime = 1, renderCount = 0\<rparr>,
                       \<lparr>cacheKey = ''b'', ele = (), lastActiveTime = 2, renderCount = 0\<rparr>],
         macroTasks = []\<rparr>))))"
proof -
  let ?st = "\<lparr>cacheNodes = [\<lparr>cacheKey = ''a'', ele = (), lastActiveTime = 1, renderCount = 0\<rparr>,
                             \<lparr>cacheKey = ''b'', ele = (), lastActiveTime = 2, renderCount = 0\<rparr>],
               macroTasks = []\<rparr>"
  let ?props = "\<lparr>activeCacheKey = Some ''c'', children = (), max_prop = Some 1, maxAliveTime = None\<rparr>"
  have h: "distinct (map cacheKey (cacheNodes ?st))" by simp
  have m: "0 \<le> max_of ?props" by (simp add: max_of_def)
  note t = key_uniqueness_invariant[OF h, of ?props 3 "Some ''a''" 1 "Some (Str ''a'')"]
  show ?thesis using h m t by blast
qed

subsection \<open>The empty string as a key argument\<close>

lemma destroy_keys_None: "destroy_keys props None = [activeCacheKey props]"
  by (cases "activeCacheKey props") (simp_all add: destroy_keys_def destroy_target_def)

lemma destroy_keys_empty: "destroy_keys props (Some (Str [])) = destroy_keys props None"
  by (simp add: destroy_keys_def destroy_target_def)

text \<open>
  Claim C10. \<^verbatim>\<open>refresh("")\<close>, \<^verbatim>\<open>destroy("")\<close> and \<^verbatim>\<open>destroyOther("")\<close> are
  \<^verbatim>\<open>refresh()\<close>, \<^verbatim>\<open>destroy()\<close> and \<^verbatim>\<open>destroyOther()\<close>, which target the active key:
  the refresh increments the entries of the active key, the job of the destroy
  removes them and the job of the destroyOther keeps only them. \<^verbatim>\<open>destroy([])\<close> has
  no key at all: its job leaves the store as it found it.
\<close>

theorem empty_string_key_is_absent:
  "refresh props (Some '''') s = refresh props None s
   \<and> refresh props None s =
       map (\<lambda>item. if Some (cacheKey item) = activeCacheKey props
                    then item\<lparr>renderCount := renderCount item + 1\<rparr> else item) s
   \<and> destroy props (Some (Str '''')) st = destroy props None st
   \<and> cacheNodes ((yield ^^ Suc (length (macroTasks st))) (destroy props None st))
       = filter (\<lambda>item. Some (cacheKey item) \<noteq> activeCacheKey props)
           (cacheNodes ((yield ^^ length (macroTasks st)) st))
   \<and> destroyOther props (Some '''') st = destroyOther props None st
   \<and> cacheNodes ((yield ^^ Suc (length (macroTasks st))) (destroyOther props None st))
       = filter (\<lambda>item. Some (cacheKey item) = activeCacheKey props)
           (cacheNodes ((yield ^^ length (macroTasks st)) st))
   \<and> cacheNodes ((yield ^^ Suc (length (macroTasks st))) (destroy props (Some (Strs [])) st))
       = cacheNodes ((yield ^^ length (macroTasks st)) st)"
proof -
  have 1: "refresh props (Some '''') s = refresh props None s"
    by (simp add: refresh_def or_active_empty)
  have 2: "refresh props None s =
       map (\<lambda>item. if Some (cacheKey item) = activeCacheKey props
                    then item\<lparr>renderCount := renderCount item + 1\<rparr> else item) s"
    by (simp add: refresh_def or_active_None)
  have 3: "destroy props (Some (Str '''')) st = destroy props None st"
    by (simp add: destroy_def destroy_keys_empty)
  have 4: "cacheNodes ((yield ^^ Suc (length (macroTasks st))) (destroy props None st))
       = filter (\<lambda>item. Some (cacheKey item) \<noteq> activeCacheKey props)
           (cacheNodes ((yield ^^ length (macroTasks st)) st))"
    unfolding destroy_def by (simp only: deferred_job_runs destroy_keys_None) simp
  have 5: "destroyOther props (Some '''') st = destroyOther props None st"
    by (simp add: destroyOther_def or_active_empty)
  have 6: "cacheNodes ((yield ^^ Suc (length (macroTasks st))) (destroyOther props None st))
       = filter (\<lambda>item. Some (cacheKey item) = activeCacheKey props)
           (cacheNodes ((yield ^^ length (macroTasks st)) st))"
    unfolding destroyOther_def by (simp only: deferred_job_runs or_active_None) simp
  have 7: "cacheNodes ((yield ^^ Suc (length (macroTasks st))) (destroy props (Some (Strs [])) st))
       = cacheNodes ((yield ^^ length (macroTasks st)) st)"
    unfolding destroy_def by (simp only: deferred_job_runs destroy_keys_Strs) simp
  show ?thesis using 1 2 3 4 5 6 7 by blast
qed

end
